theory Spec2Isabelle
  imports Complex_Main "HOL-Library.Log_Nat"
begin

section \<open>DeepFry Studio: render scheduler and image pipeline\<close>

text \<open>
  The repository holds three variants of one React component. The newest one
  (RAF render queue, burn, bloom; called the \<^emph>\<open>mobile\<close> variant below) carries the
  scheduler and the full pixel pass; \<^verbatim>\<open>src/App.tsx\<close> (the \<^emph>\<open>free build\<close>, suffix
  \<open>_app\<close>) has brightness gain and exposure but neither scheduler nor burn; the oldest
  one (suffix \<open>_v1\<close>) only has the CSS filter, a posterize pass and a noise pass.

  Numbers are JavaScript doubles. The pixel pass is modelled over \<^typ>\<open>real\<close>, that is
  with exact arithmetic in place of rounded arithmetic; the conversions to integers
  (\<^verbatim>\<open>v | 0\<close>, \<^verbatim>\<open>Math.round\<close>, \<^verbatim>\<open>Math.floor\<close>, the store into a
  \<^verbatim>\<open>Uint8ClampedArray\<close>) are written out. The one product whose rounding decides an
  integer that the program allocates, \<^verbatim>\<open>CW * previewScale\<close>, is modelled as the
  IEEE-754 binary64 product.
\<close>

subsection \<open>JavaScript number conversions\<close>

text \<open>Truncation toward zero, the first step of \<^verbatim>\<open>ToInt32\<close>.\<close>

definition js_trunc :: "real \<Rightarrow> int" where
  "js_trunc v = (if 0 \<le> v then \<lfloor>v\<rfloor> else \<lceil>v\<rceil>)"

text \<open>\<^verbatim>\<open>v | 0\<close>: truncate, then wrap into the signed 32-bit range.\<close>

definition toInt32 :: "real \<Rightarrow> int" where
  "toInt32 v = (js_trunc v + 2 ^ 31) mod 2 ^ 32 - 2 ^ 31"

text \<open>\<^verbatim>\<open>Math.round\<close>: nearest integer, a tie goes up.\<close>

definition mathRound :: "real \<Rightarrow> int" where
  "mathRound v = \<lfloor>v + 1 / 2\<rfloor>"

text \<open>
  The store conversion of \<^verbatim>\<open>Uint8ClampedArray\<close> (\<^verbatim>\<open>ToUint8Clamp\<close>): clamp to
  0..255, then round to the nearest integer, a tie to the even one.
\<close>

definition toUint8Clamp :: "real \<Rightarrow> int" where
  "toUint8Clamp v =
     (if v \<le> 0 then 0
      else if 255 \<le> v then 255
      else let f = \<lfloor>v\<rfloor> in
        if v < of_int f + 1 / 2 then f
        else if of_int f + 1 / 2 < v then f + 1
        else if even f then f else f + 1)"

text \<open>\<^verbatim>\<open>function clamp(v) { return Math.max(0, Math.min(255, v | 0)); }\<close> (mobile, free build).\<close>

definition clamp :: "real \<Rightarrow> int" where
  "clamp v = max 0 (min 255 (toInt32 v))"

text \<open>\<^verbatim>\<open>function clamp(v) { return Math.max(0, Math.min(255, v)); }\<close> (oldest variant).\<close>

definition clamp_v1 :: "real \<Rightarrow> real" where
  "clamp_v1 v = max 0 (min 255 v)"

text \<open>\<^verbatim>\<open>function roundStep(v, step) { return Math.round(v/step)*step; }\<close>\<close>

definition roundStep :: "real \<Rightarrow> real \<Rightarrow> real" where
  "roundStep v stp = of_int (mathRound (v / stp)) * stp"

subsection \<open>The loop over the image data\<close>

text \<open>
  \<^verbatim>\<open>for (let i = 0; i < d.length; i += 4) { ... d[i] = ..; d[i+1] = ..; d[i+2] = ..; }\<close>

  \<open>d\<close> is the \<^verbatim>\<open>data\<close> of an \<^verbatim>\<open>ImageData\<close>: bytes r, g, b, a per pixel, so its
  length is four times the pixel count and the reads at \<open>i + 1\<close>, \<open>i + 2\<close> are in range
  whenever \<open>i\<close> is. A store beyond the end of a typed array is ignored, as
  \<^term>\<open>list_update\<close> does. The body receives the pixel number (one call of
  \<^verbatim>\<open>Math.random\<close> per pixel at most, so the pixel number indexes the random draws)
  and the three channel bytes, and returns the three numbers that are stored.
\<close>

type_synonym rgb = "real \<times> real \<times> real"

function rgbLoop :: "(nat \<Rightarrow> rgb \<Rightarrow> rgb) \<Rightarrow> nat \<Rightarrow> int list \<Rightarrow> int list" where
  "rgbLoop body i d =
     (if i < length d then
        (case body (i div 4) (of_int (d ! i), of_int (d ! (i + 1)), of_int (d ! (i + 2))) of
           (r, g, b) \<Rightarrow>
             rgbLoop body (i + 4)
               (d[i := toUint8Clamp r, i + 1 := toUint8Clamp g, i + 2 := toUint8Clamp b]))
      else d)"
  by pat_completeness auto
termination
  by (relation "measure (\<lambda>(body, i, d). length d - i)") auto

subsection \<open>Parameters\<close>

datatype PresetType = preset_none | film | lofi | vhs | ultra

record params =
  brightness :: real
  contrast :: real
  saturation :: real
  hue :: real
  exposureEV :: real
  burn :: real
  noise :: real
  posterize :: real
  preset :: PresetType

subsection \<open>Mobile variant: the pixel pass of \<^verbatim>\<open>renderFrame\<close>\<close>

text \<open>The constants computed before the loop.\<close>

record gainCfg =
  exposureGain :: real
  extraGain :: real
  doPosterize :: bool
  step :: real
  doNoise :: bool
  noiseAmp :: real

record passCfg = gainCfg +
  burnAmt :: real
  warmBoost :: real
  hlPush :: real
  blueCut :: real

definition mkCfg :: "params \<Rightarrow> bool \<Rightarrow> passCfg" where
  "mkCfg p allowHeavy =
     (let dp = (posterize p > 1 \<and> allowHeavy);
          dn = (noise p > 0 \<and> allowHeavy);
          ba = max 0 (min 1 (burn p / 100))
      in \<lparr> exposureGain = 2 powr exposureEV p,
           extraGain = max 1 (brightness p / 200),
           doPosterize = dp,
           step = (if dp then 255 / (posterize p - 1) else 0),
           doNoise = dn,
           noiseAmp = (if dn then noise p * 255 else 0),
           burnAmt = ba,
           warmBoost = 0.45 * ba,
           hlPush = 1.15 * ba,
           blueCut = 0.28 * ba \<rparr>)"

text \<open>Lines 127-129: the combined linear gain.\<close>

definition gainStage :: "passCfg \<Rightarrow> rgb \<Rightarrow> rgb" where
  "gainStage c x = (case x of (r0, g0, b0) \<Rightarrow>
     (r0 * exposureGain c * extraGain c,
      g0 * exposureGain c * extraGain c,
      b0 * exposureGain c * extraGain c))"

text \<open>Lines 131-138: the burn.\<close>

definition burnStage :: "passCfg \<Rightarrow> rgb \<Rightarrow> rgb" where
  "burnStage c x = (case x of (r, g, b) \<Rightarrow>
     if burnAmt c > 0 then
       (let L = 0.2126 * r + 0.7152 * g + 0.0722 * b;
            t = min 1 (max 0 ((L - 110) / 145));
            push = 1 + hlPush c * t
        in (r * push + 255 * warmBoost c * t * 0.6,
            g * (1 + (hlPush c * 0.65) * t) + 255 * warmBoost c * t * 0.3,
            b * (1 + (hlPush c * 0.35) * t) - 255 * blueCut c * t * 0.2))
     else (r, g, b))"

text \<open>Lines 140-144.\<close>

definition posterizeStage :: "passCfg \<Rightarrow> rgb \<Rightarrow> rgb" where
  "posterizeStage c x = (case x of (r, g, b) \<Rightarrow>
     if doPosterize c then
       (of_int (mathRound (r / step c)) * step c,
        of_int (mathRound (g / step c)) * step c,
        of_int (mathRound (b / step c)) * step c)
     else (r, g, b))"

text \<open>Lines 146-151; \<open>u\<close> is the value \<^verbatim>\<open>Math.random()\<close> returns for this pixel.\<close>

definition noiseStage :: "passCfg \<Rightarrow> real \<Rightarrow> rgb \<Rightarrow> rgb" where
  "noiseStage c u x = (case x of (r, g, b) \<Rightarrow>
     if doNoise c then
       (let n = (u - 0.5) * 2 * noiseAmp c in (r + n, g + n, b + n))
     else (r, g, b))"

text \<open>The channel values before \<^verbatim>\<open>clamp\<close>.\<close>

definition preClamp :: "passCfg \<Rightarrow> real \<Rightarrow> rgb \<Rightarrow> rgb" where
  "preClamp c u x = noiseStage c u (posterizeStage c (burnStage c (gainStage c x)))"

text \<open>Lines 153-155: what is handed to the three stores.\<close>

definition pixelBody :: "passCfg \<Rightarrow> (nat \<Rightarrow> real) \<Rightarrow> nat \<Rightarrow> rgb \<Rightarrow> rgb" where
  "pixelBody c rnd k x = (case preClamp c (rnd k) x of (r, g, b) \<Rightarrow>
     (of_int (clamp r), of_int (clamp g), of_int (clamp b)))"

definition pixelPass :: "params \<Rightarrow> bool \<Rightarrow> (nat \<Rightarrow> real) \<Rightarrow> int list \<Rightarrow> int list" where
  "pixelPass p allowHeavy rnd d = rgbLoop (pixelBody (mkCfg p allowHeavy) rnd) 0 d"

text \<open>Selecting one channel of a triple, and the three channel bytes of pixel \<open>k\<close>.\<close>

definition chan :: "nat \<Rightarrow> rgb \<Rightarrow> real" where
  "chan c x = (case x of (r, g, b) \<Rightarrow> if c = 0 then r else if c = 1 then g else b)"

definition pixelAt :: "int list \<Rightarrow> nat \<Rightarrow> rgb" where
  "pixelAt d k = (of_int (d ! (4 * k)), of_int (d ! (4 * k + 1)), of_int (d ! (4 * k + 2)))"

text \<open>The documented ranges of the controls (the sliders' \<^verbatim>\<open>min\<close>/\<^verbatim>\<open>max\<close>; posterize moves in steps of 1).\<close>

definition inRange :: "params \<Rightarrow> bool" where
  "inRange p \<longleftrightarrow>
     50 \<le> brightness p \<and> brightness p \<le> 400 \<and>
     50 \<le> contrast p \<and> contrast p \<le> 250 \<and>
     0 \<le> saturation p \<and> saturation p \<le> 300 \<and>
     - 180 \<le> hue p \<and> hue p \<le> 180 \<and>
     - 2 \<le> exposureEV p \<and> exposureEV p \<le> 2 \<and>
     0 \<le> burn p \<and> burn p \<le> 100 \<and>
     0 \<le> noise p \<and> noise p \<le> 1 \<and>
     0 \<le> posterize p \<and> posterize p \<le> 8 \<and> posterize p = of_int \<lfloor>posterize p\<rfloor>"

text \<open>All three channels of a triple lie between two bounds.\<close>

fun inBox :: "real \<Rightarrow> real \<Rightarrow> rgb \<Rightarrow> bool" where
  "inBox lo hi (r, g, b) \<longleftrightarrow> lo \<le> r \<and> r \<le> hi \<and> lo \<le> g \<and> g \<le> hi \<and> lo \<le> b \<and> b \<le> hi"

text \<open>Image data holds bytes.\<close>

definition bytes :: "int list \<Rightarrow> bool" where
  "bytes d \<longleftrightarrow> (\<forall>x \<in> set d. 0 \<le> x \<and> x \<le> 255)"

subsection \<open>Mobile variant: working resolution\<close>

text \<open>
  \<^verbatim>\<open>const previewScale = isScrubbingRef.current ? 0.35 : 1;\<close>
  \<^verbatim>\<open>const W = Math.max(1, Math.floor(CW * previewScale));\<close>

  The literal \<^verbatim>\<open>0.35\<close> denotes the binary64 number \<open>6305039478318694 / 2^54\<close>, and the
  product is the exact product rounded to 53 significant bits, a tie to the even
  neighbour. \<open>roundNE53\<close> rounds a natural number (the exact product in units of
  \<open>2^-54\<close>) that way.
\<close>

definition roundNE53 :: "nat \<Rightarrow> nat" where
  "roundNE53 P =
     (let L = floorlog 2 P in
      if L \<le> 53 then P
      else let s = L - 53; n = P div 2 ^ s; r = P mod 2 ^ s; h = 2 ^ (s - 1);
               n' = (if r < h then n else if h < r then n + 1 else if even n then n else n + 1)
           in n' * 2 ^ s)"

definition scaledFloor :: "nat \<Rightarrow> bool \<Rightarrow> nat" where
  "scaledFloor CW isScrubbing =
     (if isScrubbing then roundNE53 (CW * 6305039478318694) div 2 ^ 54 else CW)"

definition workDim :: "nat \<Rightarrow> bool \<Rightarrow> nat" where
  "workDim CW isScrubbing = max 1 (scaledFloor CW isScrubbing)"

subsection \<open>Mobile variant: \<^verbatim>\<open>renderFrame\<close>\<close>

text \<open>
  What the component reads besides the parameters: the decoded image (its width and
  height), whether the canvas is mounted and gives a 2d context, and the output size.
\<close>

record env =
  imageBitmap :: "(nat \<times> nat) option"
  canvasMounted :: bool
  contextOk :: bool
  outW :: nat
  outH :: nat

text \<open>
  The canvas primitives are the platform's. \<open>draw flt W H\<close> stands for the bytes
  \<^verbatim>\<open>getImageData(0, 0, W, H)\<close> returns after
  \<^verbatim>\<open>drawImage(imageBitmap, 0, 0, W, H)\<close> under the filter
  \<^verbatim>\<open>brightness(b%) contrast(c%) saturate(s%) hue-rotate(h deg)\<close>, \<open>flt = (b, c, s, h)\<close>.
  Gradients and compositing are recorded as the calls made.
\<close>

type_synonym cssFilter = "real \<times> real \<times> real \<times> real"
type_synonym filterDraw = "cssFilter \<Rightarrow> nat \<Rightarrow> nat \<Rightarrow> int list"

datatype overlay =
    Vignette nat nat real
  | FilmBurn nat nat real
  | Scanlines nat nat real
  | ChromAb nat nat
  | WarmEdgeBurn nat nat real

record frame =
  canvasW :: nat
  canvasH :: nat
  workW :: nat
  workH :: nat
  filter :: cssFilter
  pixelPassRan :: bool
  workData :: "int list"
  bloom :: "(nat \<times> nat \<times> real) option"
  overlays :: "overlay list"

definition presetOverlays :: "PresetType \<Rightarrow> nat \<Rightarrow> nat \<Rightarrow> overlay list" where
  "presetOverlays pr CW CH =
     (if pr = film then [Vignette CW CH 0.5, FilmBurn CW CH 0.8] else []) @
     (if pr = lofi then [Vignette CW CH 0.7] else []) @
     (if pr = vhs then [Scanlines CW CH 0.18, ChromAb CW CH] else []) @
     (if pr = ultra then [Vignette CW CH 0.85, FilmBurn CW CH 1.0,
                          Scanlines CW CH 0.25, ChromAb CW CH] else [])"

definition burnOverlays :: "params \<Rightarrow> nat \<Rightarrow> nat \<Rightarrow> overlay list" where
  "burnOverlays p CW CH =
     (if burn p > 0
      then [Vignette CW CH (0.28 * (burn p / 100)), WarmEdgeBurn CW CH (0.5 * (burn p / 100))]
      else [])"

definition renderFrame ::
  "env \<Rightarrow> params \<Rightarrow> bool \<Rightarrow> filterDraw \<Rightarrow> (nat \<Rightarrow> real) \<Rightarrow> bool \<Rightarrow> frame option" where
  "renderFrame e p isScrubbing draw rnd runHeavyPasses =
     (case imageBitmap e of
        None \<Rightarrow> None
      | Some (iw, ih) \<Rightarrow>
          if \<not> canvasMounted e then None
          else if \<not> contextOk e then None
          else
            let CW = (if outW e \<noteq> 0 then outW e else iw);
                CH = (if outH e \<noteq> 0 then outH e else ih);
                W = workDim CW isScrubbing;
                H = workDim CH isScrubbing;
                cssB = min (brightness p) 200;
                flt = (cssB, contrast p, saturation p, hue p);
                d0 = draw flt W H;
                allowHeavy = (runHeavyPasses \<or> \<not> isScrubbing);
                pix = (allowHeavy \<or> exposureEV p \<noteq> 0 \<or> brightness p > 200 \<or> burn p > 0);
                ba = burnAmt (mkCfg p allowHeavy)
            in Some \<lparr> canvasW = CW, canvasH = CH, workW = W, workH = H,
                       filter = flt,
                       pixelPassRan = pix,
                       workData = (if pix then pixelPass p allowHeavy rnd d0 else d0),
                       bloom = (if pix \<and> ba > 0 \<and> allowHeavy
                                then Some (nat (max 1 (toInt32 (real W * 0.25))),
                                           nat (max 1 (toInt32 (real H * 0.25))),
                                           0.35 * ba)
                                else None),
                       overlays = presetOverlays (preset p) CW CH @ burnOverlays p CW CH \<rparr>)"

subsection \<open>Mobile variant: the render queue\<close>

text \<open>
  The refs \<^verbatim>\<open>rafRef\<close>, \<^verbatim>\<open>wantFullRef\<close>, \<^verbatim>\<open>isScrubbingRef\<close>; the animation-frame
  callbacks armed in the browser and not yet run (\<open>rafQueue\<close>, by handle);
  the handle the next \<^verbatim>\<open>requestAnimationFrame\<close> returns; and the calls of
  \<^verbatim>\<open>renderFrame\<close> made so far, each with its argument and the value of
  \<^verbatim>\<open>isScrubbingRef.current\<close> it runs under.
\<close>

record sched =
  rafRef :: "nat option"
  wantFullRef :: bool
  isScrubbingRef :: bool
  rafQueue :: "nat list"
  nextHandle :: nat
  renders :: "(bool \<times> bool) list"

definition initSched :: sched where
  "initSched = \<lparr> rafRef = None, wantFullRef = False, isScrubbingRef = False,
                 rafQueue = [], nextHandle = 1, renders = [] \<rparr>"

definition queueRender :: "bool \<Rightarrow> sched \<Rightarrow> sched" where
  "queueRender requestFull s =
     (let s1 = (if requestFull then s\<lparr>wantFullRef := True\<rparr> else s)
      in if rafRef s1 \<noteq> None then s1
         else s1\<lparr> rafRef := Some (nextHandle s1),
                  rafQueue := rafQueue s1 @ [nextHandle s1],
                  nextHandle := nextHandle s1 + 1 \<rparr>)"

text \<open>The body of the callback handed to \<^verbatim>\<open>requestAnimationFrame\<close>.\<close>

definition rafCallback :: "sched \<Rightarrow> sched" where
  "rafCallback s =
     (let s1 = s\<lparr>rafRef := None\<rparr>;
          runFull = (wantFullRef s1 \<and> \<not> isScrubbingRef s1);
          s2 = s1\<lparr>wantFullRef := False\<rparr>
      in s2\<lparr>renders := renders s2 @ [(runFull, isScrubbingRef s2)]\<rparr>)"

text \<open>
  A display refresh runs the callbacks that are armed when it starts, oldest first;
  the callback itself arms none.
\<close>

definition refresh :: "sched \<Rightarrow> sched" where
  "refresh s = fold (\<lambda>h. rafCallback) (rafQueue s) (s\<lparr>rafQueue := []\<rparr>)"

definition startScrub :: "sched \<Rightarrow> sched" where
  "startScrub s = queueRender False (s\<lparr>isScrubbingRef := True\<rparr>)"

definition endScrub :: "sched \<Rightarrow> sched" where
  "endScrub s = queueRender True (s\<lparr>isScrubbingRef := False\<rparr>)"

datatype event = QueueRender bool | StartScrub | EndScrub | Refresh

fun step_ev :: "sched \<Rightarrow> event \<Rightarrow> sched" where
  "step_ev s (QueueRender b) = queueRender b s"
| "step_ev s StartScrub = startScrub s"
| "step_ev s EndScrub = endScrub s"
| "step_ev s Refresh = refresh s"

definition run :: "event list \<Rightarrow> sched" where
  "run evs = foldl step_ev initSched evs"

text \<open>
  The callback calls \<^verbatim>\<open>renderFrame(runFull)\<close>; a logged call \<open>(runFull, scrubbing)\<close>
  is this invocation of the pipeline.
\<close>

definition renderCall ::
  "env \<Rightarrow> params \<Rightarrow> filterDraw \<Rightarrow> (nat \<Rightarrow> real) \<Rightarrow> bool \<times> bool \<Rightarrow> frame option" where
  "renderCall e p draw rnd c = renderFrame e p (snd c) draw rnd (fst c)"

text \<open>
  What holds of the refs in every state the queue reaches: the handle is set exactly
  while a callback is armed, at most one callback is armed, and a pending full
  request has its callback armed.
\<close>

definition sched_inv :: "sched \<Rightarrow> bool" where
  "sched_inv s \<longleftrightarrow>
     (rafRef s = None \<longleftrightarrow> rafQueue s = []) \<and> length (rafQueue s) \<le> 1 \<and>
     (wantFullRef s \<longrightarrow> rafQueue s \<noteq> [])"

subsection \<open>Free build (\<^verbatim>\<open>src/App.tsx\<close>): \<^verbatim>\<open>renderFrame\<close>\<close>

record frame_app =
  canvasW_app :: nat
  canvasH_app :: nat
  filter_app :: cssFilter
  pixelPassRan_app :: bool
  workData_app :: "int list"

text \<open>The constants computed before the loop (a truthiness test precedes each comparison).\<close>

definition mkCfg_app :: "params \<Rightarrow> gainCfg" where
  "mkCfg_app p =
     (let dp = (posterize p \<noteq> 0 \<and> posterize p > 1);
          dn = (noise p \<noteq> 0 \<and> noise p > 0)
      in \<lparr> exposureGain = 2 powr exposureEV p,
           extraGain = max 1 (brightness p / 200),
           doPosterize = dp,
           step = (if dp then 255 / (posterize p - 1) else 0),
           doNoise = dn,
           noiseAmp = (if dn then noise p * 255 else 0) \<rparr>)"

definition pixelBody_app :: "gainCfg \<Rightarrow> (nat \<Rightarrow> real) \<Rightarrow> nat \<Rightarrow> rgb \<Rightarrow> rgb" where
  "pixelBody_app c rnd k x = (case x of (r0, g0, b0) \<Rightarrow>
     let r = r0 * exposureGain c * extraGain c;
         g = g0 * exposureGain c * extraGain c;
         b = b0 * exposureGain c * extraGain c;
         r1 = (if doPosterize c then roundStep r (step c) else r);
         g1 = (if doPosterize c then roundStep g (step c) else g);
         b1 = (if doPosterize c then roundStep b (step c) else b);
         n = (if doNoise c then (rnd k - 0.5) * 2 * noiseAmp c else 0)
     in (of_int (clamp (r1 + n)), of_int (clamp (g1 + n)), of_int (clamp (b1 + n))))"


subsection \<open>Oldest variant: the render effect, up to the overlays\<close>

text \<open>
  Here the filtered image is drawn at the size of the canvas and copied to it one to
  one; \<open>draw flt CW CH\<close> stands for the bytes \<^verbatim>\<open>getImageData\<close> then returns from the
  visible canvas. The posterize pass and the noise pass each read and write them.
\<close>

definition posterizeBody_v1 :: "real \<Rightarrow> nat \<Rightarrow> rgb \<Rightarrow> rgb" where
  "posterizeBody_v1 stp k x = (case x of (r, g, b) \<Rightarrow>
     (roundStep r stp, roundStep g stp, roundStep b stp))"

definition noiseBody_v1 :: "real \<Rightarrow> (nat \<Rightarrow> real) \<Rightarrow> nat \<Rightarrow> rgb \<Rightarrow> rgb" where
  "noiseBody_v1 s rnd k x = (case x of (r, g, b) \<Rightarrow>
     let n = (rnd k - 0.5) * 2 * s
     in (clamp_v1 (r + n), clamp_v1 (g + n), clamp_v1 (b + n)))"

definition render_v1 ::
  "env \<Rightarrow> params \<Rightarrow> filterDraw \<Rightarrow> (nat \<Rightarrow> real) \<Rightarrow> frame_app option" where
  "render_v1 e p draw rnd =
     (case imageBitmap e of
        None \<Rightarrow> None
      | Some (iw, ih) \<Rightarrow>
          if \<not> canvasMounted e then None
          else if \<not> contextOk e then None
          else
            let CW = (if outW e \<noteq> 0 then outW e else iw);
                CH = (if outH e \<noteq> 0 then outH e else ih);
                flt = (brightness p, contrast p, saturation p, hue p);
                d0 = draw flt CW CH;
                d1 = (if posterize p > 1
                      then rgbLoop (posterizeBody_v1 (255 / (posterize p - 1))) 0 d0 else d0);
                d2 = (if noise p > 0
                      then rgbLoop (noiseBody_v1 (noise p * 255) rnd) 0 d1 else d1)
            in Some \<lparr> canvasW_app = CW, canvasH_app = CH, filter_app = flt,
                       pixelPassRan_app = (posterize p > 1 \<or> noise p > 0),
                       workData_app = d2 \<rparr>)"



subsection \<open>Export\<close>

text \<open>
  \<^verbatim>\<open>handleDownload\<close> reads the canvas (\<open>None\<close>: not mounted; else its width and height).
  Its effects on the user: an alert, or a download of the encoded surface.
\<close>

datatype effect = Alert string | Download string string real

definition handleDownload :: "(nat \<times> nat) option \<Rightarrow> effect list" where
  "handleDownload canvas =
     (case canvas of
        None \<Rightarrow> []
      | Some (w, h) \<Rightarrow>
          if w = 0 \<or> h = 0 then [Alert ''Nothing to download yet.'']
          else [Download ''deepfry.jpg'' ''image/jpeg'' 0.9])"

definition handleDownload_app :: "(nat \<times> nat) option \<Rightarrow> effect list" where
  "handleDownload_app canvas =
     (case canvas of
        None \<Rightarrow> []
      | Some (w, h) \<Rightarrow>
          if w = 0 \<or> h = 0 then [Alert ''Nothing to download yet.'']
          else [Download ''deepfry.jpg'' ''image/jpeg'' 0.9])"


subsection \<open>Sample inputs\<close>

text \<open>
  The initial values of the controls (\<^verbatim>\<open>useState\<close>) of the mobile variant, the
  environment after \<^verbatim>\<open>loadDemo\<close> (a 640 by 800 image, shown unscaled), a source
  that the filter draws as one flat colour, and a random source that always returns
  the same number.
\<close>

definition defaults :: params where
  "defaults = \<lparr> brightness = 120, contrast = 120, saturation = 140, hue = 0,
                exposureEV = 0, burn = 35, noise = 0.08, posterize = 0,
                preset = preset_none \<rparr>"

definition demoEnv :: env where
  "demoEnv = \<lparr> imageBitmap = Some (640, 800), canvasMounted = True, contextOk = True,
               outW = 640, outH = 800 \<rparr>"

text \<open>A 1400 by 1050 image, shown unscaled.\<close>

definition wideEnv :: env where
  "wideEnv = \<lparr> imageBitmap = Some (1400, 1050), canvasMounted = True, contextOk = True,
               outW = 1400, outH = 1050 \<rparr>"

text \<open>A one-pixel image.\<close>

definition pixelEnv :: env where
  "pixelEnv = \<lparr> imageBitmap = Some (1, 1), canvasMounted = True, contextOk = True,
                outW = 1, outH = 1 \<rparr>"

definition flatDraw :: "int \<Rightarrow> filterDraw" where
  "flatDraw v flt W H = concat (replicate (W * H) [v, v, v, 255])"

definition constRandom :: "real \<Rightarrow> nat \<Rightarrow> real" where
  "constRandom u k = u"

section \<open>Properties\<close>

declare rgbLoop.simps [simp del]

subsection \<open>The loop writes three bytes of every pixel\<close>

lemma rgbLoop_length [simp]: "length (rgbLoop body i d) = length d"
proof (induction body i d rule: rgbLoop.induct)
  case (1 body i d)
  show ?case
  proof (cases "i < length d")
    case True
    obtain r g b where B: "body (i div 4) (of_int (d ! i), of_int (d ! (i + 1)), of_int (d ! (i + 2))) = (r, g, b)"
      by (cases "body (i div 4) (of_int (d ! i), of_int (d ! (i + 1)), of_int (d ! (i + 2)))") auto
    from 1[OF True B[symmetric] refl] True B show ?thesis
      by (subst rgbLoop.simps) simp
  next
    case False
    then show ?thesis by (subst rgbLoop.simps) simp
  qed
qed

lemma rgbLoop_nth:
  "i mod 4 = 0 \<Longrightarrow> j < length d \<Longrightarrow>
   rgbLoop body i d ! j =
     (if j < i \<or> j mod 4 = 3 then d ! j
      else toUint8Clamp (chan (j mod 4) (body (j div 4) (pixelAt d (j div 4)))))"
proof (induction body i d rule: rgbLoop.induct)
  case (1 body i d)
  show ?case
  proof (cases "i < length d")
    case False
    with 1(3) have "j < i" by simp
    with False show ?thesis by (subst rgbLoop.simps) simp
  next
    case True
    obtain r g b where B: "body (i div 4) (of_int (d ! i), of_int (d ! (i + 1)), of_int (d ! (i + 2))) = (r, g, b)"
      by (cases "body (i div 4) (of_int (d ! i), of_int (d ! (i + 1)), of_int (d ! (i + 2)))") auto
    define d' where "d' = d[i := toUint8Clamp r, i + 1 := toUint8Clamp g, i + 2 := toUint8Clamp b]"
    have step: "rgbLoop body i d = rgbLoop body (i + 4) d'"
      using True B by (subst rgbLoop.simps) (simp add: d'_def)
    have i4: "(i + 4) mod 4 = 0" using 1(2) by presburger
    have jl: "j < length d'" using 1(3) by (simp add: d'_def)
    have IH: "rgbLoop body (i + 4) d' ! j =
        (if j < i + 4 \<or> j mod 4 = 3 then d' ! j
         else toUint8Clamp (chan (j mod 4) (body (j div 4) (pixelAt d' (j div 4)))))"
      using 1(1)[OF True B[symmetric] refl, folded d'_def, OF i4 jl] .
    have i4k: "4 * (i div 4) = i" using 1(2) by presburger
    have pix_i: "pixelAt d (i div 4) = (of_int (d ! i), of_int (d ! (i + 1)), of_int (d ! (i + 2)))"
      by (simp add: pixelAt_def i4k)
    consider (lt) "j < i" | (mid) "i \<le> j" "j < i + 4" | (ge) "i + 4 \<le> j" by linarith
    then show ?thesis
    proof cases
      case lt
      then show ?thesis using IH step by (simp add: d'_def)
    next
      case mid
      then consider "j = i" | "j = i + 1" | "j = i + 2" | "j = i + 3" by linarith
      then show ?thesis
      proof cases
        case 1
        then have "j mod 4 = 0" "j div 4 = i div 4" using \<open>i mod 4 = 0\<close> by presburger+
        then show ?thesis using IH step 1 True B pix_i
          by (simp add: d'_def chan_def)
      next
        case 2
        then have "j mod 4 = 1" "j div 4 = i div 4" using \<open>i mod 4 = 0\<close> by presburger+
        then show ?thesis using IH step 2 True B pix_i \<open>j < length d\<close>
          by (simp add: d'_def chan_def)
      next
        case 3
        then have "j mod 4 = 2" "j div 4 = i div 4" using \<open>i mod 4 = 0\<close> by presburger+
        then show ?thesis using IH step 3 True B pix_i \<open>j < length d\<close>
          by (simp add: d'_def chan_def)
      next
        case 4
        then have "j mod 4 = 3" using \<open>i mod 4 = 0\<close> by presburger
        then show ?thesis using IH step 4 by (simp add: d'_def)
      qed
    next
      case ge
      have "i + 4 \<le> 4 * (j div 4)" using ge \<open>i mod 4 = 0\<close> by presburger
      then have "pixelAt d' (j div 4) = pixelAt d (j div 4)"
        by (simp add: pixelAt_def d'_def)
      moreover have "d' ! j = d ! j" using ge by (simp add: d'_def)
      ultimately show ?thesis using IH step ge by simp
    qed
  qed
qed

subsection \<open>Conversions\<close>

lemma clamp_range: "0 \<le> clamp v \<and> clamp v \<le> 255"
  by (simp add: clamp_def)

lemma toUint8Clamp_of_int: "0 \<le> n \<Longrightarrow> n \<le> 255 \<Longrightarrow> toUint8Clamp (of_int n) = n"
  by (auto simp: toUint8Clamp_def Let_def)

lemma toUint8Clamp_clamp [simp]: "toUint8Clamp (of_int (clamp v)) = clamp v"
  using clamp_range [of v] by (simp add: toUint8Clamp_of_int)

lemma chan_pixelBody:
  "chan c (pixelBody cfg rnd k x) = of_int (clamp (chan c (preClamp cfg (rnd k) x)))"
  by (cases "preClamp cfg (rnd k) x") (simp add: pixelBody_def chan_def)

lemma pixelPass_nth:
  assumes "j < length d"
  shows "pixelPass p allowHeavy rnd d ! j =
           (if j mod 4 = 3 then d ! j
            else clamp (chan (j mod 4)
                   (preClamp (mkCfg p allowHeavy) (rnd (j div 4)) (pixelAt d (j div 4)))))"
  using assms by (simp add: pixelPass_def rgbLoop_nth chan_pixelBody)

subsection \<open>The render queue\<close>

lemma sched_inv_init: "sched_inv initSched"
  by (simp add: sched_inv_def initSched_def)

lemma sched_inv_queueRender: "sched_inv s \<Longrightarrow> sched_inv (queueRender b s)"
  by (auto simp: sched_inv_def queueRender_def Let_def)

lemma sched_inv_refresh: "sched_inv s \<Longrightarrow> sched_inv (refresh s)"
  by (cases "rafQueue s"; cases "tl (rafQueue s)")
     (auto simp: sched_inv_def refresh_def rafCallback_def Let_def)

lemma sched_inv_step: "sched_inv s \<Longrightarrow> sched_inv (step_ev s ev)"
proof (cases ev)
  case (QueueRender b)
  then show "sched_inv s \<Longrightarrow> ?thesis" by (simp add: sched_inv_queueRender)
next
  case StartScrub
  then show "sched_inv s \<Longrightarrow> ?thesis"
    by (auto simp: startScrub_def sched_inv_def queueRender_def Let_def)
next
  case EndScrub
  then show "sched_inv s \<Longrightarrow> ?thesis"
    by (auto simp: endScrub_def sched_inv_def queueRender_def Let_def)
next
  case Refresh
  then show "sched_inv s \<Longrightarrow> ?thesis" by (simp add: sched_inv_refresh)
qed

lemma sched_inv_foldl: "sched_inv s \<Longrightarrow> sched_inv (foldl step_ev s evs)"
  by (induction evs arbitrary: s) (simp_all add: sched_inv_step)

lemma sched_inv_run: "sched_inv (run evs)"
  by (simp add: run_def sched_inv_foldl sched_inv_init)

lemma run_append: "run (xs @ ys) = foldl step_ev (run xs) ys"
  by (simp add: run_def)

lemma step_no_refresh:
  "ev \<noteq> Refresh \<Longrightarrow> renders (step_ev s ev) = renders s"
  by (cases ev) (auto simp: queueRender_def startScrub_def endScrub_def Let_def)

lemma step_keeps_wantFull:
  "ev \<noteq> Refresh \<Longrightarrow> wantFullRef s \<Longrightarrow> wantFullRef (step_ev s ev)"
  by (cases ev) (auto simp: queueRender_def startScrub_def endScrub_def Let_def)

lemma foldl_keeps_wantFull:
  "Refresh \<notin> set evs \<Longrightarrow> wantFullRef s \<Longrightarrow> wantFullRef (foldl step_ev s evs)"
  by (induction evs arbitrary: s) (auto simp: step_keeps_wantFull)

lemma foldl_renders:
  "Refresh \<notin> set evs \<Longrightarrow> renders (foldl step_ev s evs) = renders s"
  by (induction evs arbitrary: s) (auto simp: step_no_refresh)

lemma foldl_wantFull:
  "Refresh \<notin> set evs \<Longrightarrow> QueueRender True \<in> set evs \<or> EndScrub \<in> set evs \<Longrightarrow>
     wantFullRef (foldl step_ev s evs)"
proof (induction evs arbitrary: s)
  case Nil
  then show ?case by simp
next
  case (Cons ev evs)
  show ?case
  proof (cases "ev = QueueRender True \<or> ev = EndScrub")
    case True
    then have "wantFullRef (step_ev s ev)"
      by (auto simp: queueRender_def endScrub_def Let_def)
    with Cons.prems show ?thesis by (simp add: foldl_keeps_wantFull)
  next
    case False
    with Cons show ?thesis by auto
  qed
qed

lemma refresh_armed:
  "sched_inv s \<Longrightarrow> rafQueue s \<noteq> [] \<Longrightarrow>
     refresh s = s\<lparr> rafQueue := [], rafRef := None, wantFullRef := False,
                   renders := renders s @ [(wantFullRef s \<and> \<not> isScrubbingRef s, isScrubbingRef s)] \<rparr>"
  by (cases "rafQueue s"; cases "tl (rafQueue s)")
     (auto simp: refresh_def rafCallback_def Let_def sched_inv_def)

lemma refresh_idle: "rafQueue s = [] \<Longrightarrow> refresh s = s"
  by (cases s) (simp add: refresh_def)

lemma floorlog2_eqI: "0 < n \<Longrightarrow> 2 ^ (n - 1) \<le> P \<Longrightarrow> P < 2 ^ n \<Longrightarrow> floorlog 2 P = n"
  by (rule antisym) (simp_all add: floorlog_leI floorlog_geI)

lemma renderFrame_full_size:
  assumes "renderFrame e p False draw rnd full = Some f"
  shows "workW f = max 1 (canvasW f) \<and> workH f = max 1 (canvasH f) \<and> pixelPassRan f"
  using assms
  by (auto simp: renderFrame_def Let_def workDim_def scaledFloor_def
           split: option.splits if_splits)

lemma renderFrame_preview_size:
  assumes "renderFrame e p True draw rnd full = Some f"
  shows "workW f = workDim (canvasW f) True \<and> workH f = workDim (canvasH f) True"
  using assms
  by (auto simp: renderFrame_def Let_def split: option.splits if_splits)

text \<open>
  C1, as the code has it. If a \<^verbatim>\<open>queueRender(true)\<close> (made directly, or by
  \<^verbatim>\<open>endScrub\<close>) is among the calls made since the last refresh callback, then a
  callback is armed, and the render it executes is
  invoked with \<open>runFull = \<not> scrubbing\<close>, scrubbing being read when the callback fires;
  the pending flag is cleared by that callback. When scrubbing is off at that time the
  working buffer has the size of the output and the pixel pass runs; when it is on, the
  working buffer has the preview size.
\<close>

theorem forced_full_unless_scrubbing:
  assumes "Refresh \<notin> set evs" and "QueueRender True \<in> set evs \<or> EndScrub \<in> set evs"
  shows "rafQueue (run (pre @ evs)) \<noteq> []
       \<and> renders (run (pre @ evs @ [Refresh])) =
           renders (run pre) @
             [(\<not> isScrubbingRef (run (pre @ evs)), isScrubbingRef (run (pre @ evs)))]
       \<and> wantFullRef (run (pre @ evs @ [Refresh])) = False
       \<and> rafQueue (run (pre @ evs @ [Refresh])) = []
       \<and> (\<forall>f. renderCall e p draw rnd (last (renders (run (pre @ evs @ [Refresh])))) = Some f \<longrightarrow>
            (if isScrubbingRef (run (pre @ evs))
             then workW f = workDim (canvasW f) True \<and> workH f = workDim (canvasH f) True
             else workW f = max 1 (canvasW f) \<and> workH f = max 1 (canvasH f) \<and> pixelPassRan f))"
proof -
  let ?s = "run (pre @ evs)"
  have inv: "sched_inv ?s" by (rule sched_inv_run)
  have wf: "wantFullRef ?s" using assms by (simp add: run_append foldl_wantFull)
  with inv have q: "rafQueue ?s \<noteq> []" by (simp add: sched_inv_def)
  have r: "renders ?s = renders (run pre)" using assms(1) by (simp add: run_append foldl_renders)
  have e: "run (pre @ evs @ [Refresh]) = refresh ?s"
    by (simp add: run_append[of "pre @ evs" "[Refresh]", simplified])
  have main: "renders (run (pre @ evs @ [Refresh])) =
           renders (run pre) @ [(\<not> isScrubbingRef ?s, isScrubbingRef ?s)]"
    "wantFullRef (run (pre @ evs @ [Refresh])) = False"
    "rafQueue (run (pre @ evs @ [Refresh])) = []"
    using refresh_armed[OF inv q] wf r e by simp_all
  have sz: "\<forall>f. renderCall e p draw rnd (last (renders (run (pre @ evs @ [Refresh])))) = Some f \<longrightarrow>
            (if isScrubbingRef ?s
             then workW f = workDim (canvasW f) True \<and> workH f = workDim (canvasH f) True
             else workW f = max 1 (canvasW f) \<and> workH f = max 1 (canvasH f) \<and> pixelPassRan f)"
    using renderFrame_full_size renderFrame_preview_size
    by (auto simp: main(1) renderCall_def)
  from q main sz show ?thesis by blast
qed

theorem forced_full_unless_scrubbing_witness:
  "Refresh \<notin> set [QueueRender False, QueueRender True, QueueRender False]
   \<and> (QueueRender True \<in> set [QueueRender False, QueueRender True, QueueRender False]
        \<or> EndScrub \<in> set [QueueRender False, QueueRender True, QueueRender False])
   \<and> renders (run [QueueRender False, QueueRender True, QueueRender False, Refresh]) = [(True, False)]
   \<and> wantFullRef (run [QueueRender False, QueueRender True, QueueRender False, Refresh]) = False
   \<and> map_option workW (renderCall demoEnv defaults (flatDraw 128) (constRandom (1 / 2)) (True, False))
       = Some 640"
proof -
  have r: "run [] = initSched" by (simp add: run_def)
  have f: "renderCall demoEnv defaults (flatDraw 128) (constRandom (1 / 2)) (True, False) \<noteq> None"
    by (simp add: renderCall_def renderFrame_def demoEnv_def Let_def)
  have s: "isScrubbingRef (run [QueueRender False, QueueRender True, QueueRender False]) = False"
    by (simp add: run_def initSched_def queueRender_def Let_def)
  have c: "canvasW (the (renderCall demoEnv defaults (flatDraw 128) (constRandom (1 / 2)) (True, False))) = 640"
    by (simp add: renderCall_def renderFrame_def demoEnv_def Let_def)
  show ?thesis
    using forced_full_unless_scrubbing
      [of "[QueueRender False, QueueRender True, QueueRender False]" "[]"
          demoEnv defaults "flatDraw 128" "constRandom (1 / 2)"] r f s c
    by (auto simp: initSched_def)
qed

text \<open>
  C1 as the claim states it fails: a \<^verbatim>\<open>queueRender(true)\<close> made while a slider is
  held is answered by a render with \<open>runFull = False\<close> at the preview size (here 224 by
  280 for the 640 by 800 output), and afterwards neither the flag nor a callback is pending.
\<close>

theorem forced_full_dropped_while_scrubbing:
  "renders (run [StartScrub, QueueRender True, Refresh]) = [(False, True)]
   \<and> wantFullRef (run [StartScrub, QueueRender True, Refresh]) = False
   \<and> rafQueue (run [StartScrub, QueueRender True, Refresh]) = []
   \<and> map_option workW (renderCall demoEnv defaults (flatDraw 128) (constRandom (1 / 2)) (False, True))
       = Some 224
   \<and> map_option workH (renderCall demoEnv defaults (flatDraw 128) (constRandom (1 / 2)) (False, True))
       = Some 280
   \<and> map_option canvasW (renderCall demoEnv defaults (flatDraw 128) (constRandom (1 / 2)) (False, True))
       = Some 640
   \<and> map_option canvasH (renderCall demoEnv defaults (flatDraw 128) (constRandom (1 / 2)) (False, True))
       = Some 800"
proof -
  have a: "floorlog 2 (640 * 6305039478318694) = 62" by (rule floorlog2_eqI) simp_all
  have b: "floorlog 2 (800 * 6305039478318694) = 63" by (rule floorlog2_eqI) simp_all
  have w: "workDim 640 True = 224" using a
    by (simp add: workDim_def scaledFloor_def roundNE53_def Let_def)
  have h: "workDim 800 True = 280" using b
    by (simp add: workDim_def scaledFloor_def roundNE53_def Let_def)
  have q: "renders (run [StartScrub, QueueRender True, Refresh]) = [(False, True)]
   \<and> wantFullRef (run [StartScrub, QueueRender True, Refresh]) = False
   \<and> rafQueue (run [StartScrub, QueueRender True, Refresh]) = []"
    by (simp add: run_def initSched_def startScrub_def queueRender_def refresh_def
          rafCallback_def Let_def)
  show ?thesis using q w h
    by (simp add: renderCall_def renderFrame_def demoEnv_def Let_def)
qed

lemma burst_queue:
  "bs \<noteq> [] \<Longrightarrow> rafQueue s = [] \<Longrightarrow> sched_inv s \<Longrightarrow>
     length (rafQueue (foldl step_ev s (map QueueRender bs))) = 1
   \<and> wantFullRef (foldl step_ev s (map QueueRender bs)) = (wantFullRef s \<or> True \<in> set bs)
   \<and> isScrubbingRef (foldl step_ev s (map QueueRender bs)) = isScrubbingRef s
   \<and> renders (foldl step_ev s (map QueueRender bs)) = renders s"
proof (induction bs arbitrary: s rule: rev_induct)
  case Nil
  then show ?case by simp
next
  case (snoc b bs)
  show ?case
  proof (cases "bs = []")
    case True
    with snoc.prems show ?thesis
      by (auto simp: queueRender_def Let_def sched_inv_def)
  next
    case False
    from snoc.IH[OF False snoc.prems(2,3)] 
    have IH: "length (rafQueue (foldl step_ev s (map QueueRender bs))) = 1"
      "wantFullRef (foldl step_ev s (map QueueRender bs)) = (wantFullRef s \<or> True \<in> set bs)"
      "isScrubbingRef (foldl step_ev s (map QueueRender bs)) = isScrubbingRef s"
      "renders (foldl step_ev s (map QueueRender bs)) = renders s" by auto
    have inv: "sched_inv (foldl step_ev s (map QueueRender bs))"
      using snoc.prems(3) by (rule sched_inv_foldl)
    from IH(1) have ne: "rafQueue (foldl step_ev s (map QueueRender bs)) \<noteq> []" by auto
    with inv have "rafRef (foldl step_ev s (map QueueRender bs)) \<noteq> None"
      by (simp add: sched_inv_def)
    then show ?thesis using IH by (auto simp: queueRender_def Let_def)
  qed
qed

text \<open>
  C2. A burst of \<open>N \<ge> 1\<close> calls of \<^verbatim>\<open>queueRender\<close> that starts while no callback is
  armed leaves exactly one callback armed and the pending flag equal to the
  disjunction of the arguments; no render runs during the burst, the refresh that
  follows runs exactly one, and a further refresh runs none.
\<close>

theorem burst_coalesces:
  assumes "bs \<noteq> []" and "rafQueue (run pre) = []"
  shows "length (rafQueue (run (pre @ map QueueRender bs))) = 1
       \<and> wantFullRef (run (pre @ map QueueRender bs)) = (True \<in> set bs)
       \<and> renders (run (pre @ map QueueRender bs)) = renders (run pre)
       \<and> renders (run (pre @ map QueueRender bs @ [Refresh])) =
           renders (run pre) @ [(True \<in> set bs \<and> \<not> isScrubbingRef (run pre), isScrubbingRef (run pre))]
       \<and> rafQueue (run (pre @ map QueueRender bs @ [Refresh])) = []
       \<and> run (pre @ map QueueRender bs @ [Refresh, Refresh]) = run (pre @ map QueueRender bs @ [Refresh])"
proof -
  let ?s = "run (pre @ map QueueRender bs)"
  have inv0: "sched_inv (run pre)" by (rule sched_inv_run)
  with assms(2) have nw: "\<not> wantFullRef (run pre)" by (auto simp: sched_inv_def)
  have B: "length (rafQueue ?s) = 1" "wantFullRef ?s = (True \<in> set bs)"
    "isScrubbingRef ?s = isScrubbingRef (run pre)" "renders ?s = renders (run pre)"
    using burst_queue[OF assms(1) assms(2) inv0] nw by (simp_all add: run_append)
  have inv: "sched_inv ?s" by (rule sched_inv_run)
  from B(1) have q: "rafQueue ?s \<noteq> []" by auto
  have e1: "run (pre @ map QueueRender bs @ [Refresh]) = refresh ?s"
    by (simp add: run_append[of "pre @ map QueueRender bs" "[Refresh]", simplified])
  have e2: "run (pre @ map QueueRender bs @ [Refresh, Refresh]) = refresh (refresh ?s)"
    by (simp add: run_append[of "pre @ map QueueRender bs" "[Refresh, Refresh]", simplified])
  have r: "rafQueue (refresh ?s) = []" using refresh_armed[OF inv q] by simp
  show ?thesis using B refresh_armed[OF inv q] e1 e2 refresh_idle[OF r] by simp
qed

theorem burst_coalesces_witness:
  "[False, True, False] \<noteq> [] \<and> rafQueue (run []) = []
   \<and> length (rafQueue (run (map QueueRender [False, True, False]))) = 1
   \<and> wantFullRef (run (map QueueRender [False, True, False])) = True
   \<and> renders (run (map QueueRender [False, True, False] @ [Refresh])) = [(True, False)]
   \<and> renders (run (map QueueRender [False, True, False] @ [Refresh, Refresh])) = [(True, False)]"
proof -
  have r: "run [] = initSched" by (simp add: run_def)
  have q: "rafQueue (run []) = []" by (simp add: r initSched_def)
  show ?thesis
    using burst_coalesces [of "[False, True, False]" "[]", OF _ q] r
    by (simp add: initSched_def)
qed

subsection \<open>Working resolution while scrubbing\<close>

lemma roundNE53_near:
  "roundNE53 P * 2 ^ 53 \<le> P * (2 ^ 53 + 1) \<and> P * 2 ^ 53 \<le> roundNE53 P * 2 ^ 53 + P"
proof (cases "floorlog 2 P \<le> 53")
  case True
  then show ?thesis by (simp add: roundNE53_def)
next
  case False
  define s where "s = floorlog 2 P - 53"
  define n where "n = P div 2 ^ s"
  define r where "r = P mod 2 ^ s"
  define h :: nat where "h = 2 ^ (s - 1)"
  define n' where "n' = (if r < h then n else if h < r then n + 1 else if even n then n else n + 1)"
  have s1: "1 \<le> s" using False by (simp add: s_def)
  have R: "roundNE53 P = n' * 2 ^ s"
    using False by (simp add: roundNE53_def Let_def s_def n_def r_def h_def n'_def)
  have P0: "0 < P" using False by (auto simp: floorlog_def split: if_splits)
  have hh: "(2::nat) ^ s = 2 * h" using s1 unfolding h_def by (cases s) simp_all
  have P: "P = n * (2 * h) + r"
    using div_mult_mod_eq[of P "2 ^ s"] unfolding n_def r_def hh[symmetric] by simp
  have rlt: "r < 2 * h" unfolding r_def hh[symmetric] by simp
  have "2 ^ (floorlog 2 P - 1) \<le> P" using floorlog_bounds[of P 2] P0 by simp
  moreover have "floorlog 2 P - 1 = (s - 1) + 53" using False s_def by simp
  ultimately have hP: "h * 2 ^ 53 \<le> P" by (simp add: h_def power_add)
  have up: "n' * (2 * h) \<le> P + h" using P rlt by (auto simp: n'_def)
  have lo: "P \<le> n' * (2 * h) + h" using P rlt by (auto simp: n'_def)
  have "n' * (2 * h) * 2 ^ 53 \<le> (P + h) * 2 ^ 53" using up by simp
  also have "\<dots> = P * 2 ^ 53 + h * 2 ^ 53" by (simp add: algebra_simps)
  also have "\<dots> \<le> P * 2 ^ 53 + P" using hP by simp
  finally have A: "roundNE53 P * 2 ^ 53 \<le> P * (2 ^ 53 + 1)" by (simp add: R hh algebra_simps)
  have "P * 2 ^ 53 \<le> (n' * (2 * h) + h) * 2 ^ 53" using lo by simp
  also have "\<dots> = n' * (2 * h) * 2 ^ 53 + h * 2 ^ 53" by (simp add: algebra_simps)
  also have "\<dots> \<le> n' * (2 * h) * 2 ^ 53 + P" using hP by simp
  finally have B: "P * 2 ^ 53 \<le> roundNE53 P * 2 ^ 53 + P" by (simp add: R hh)
  from A B show ?thesis ..
qed

lemma floor_035: "nat \<lfloor>0.35 * real n\<rfloor> = 7 * n div 20"
proof -
  have "(0.35::real) * real n = real (7 * n) / real 20" by simp
  then have "\<lfloor>0.35 * real n\<rfloor> = \<lfloor>real (7 * n) / real 20\<rfloor>" by simp
  also have "\<dots> = int (7 * n div 20)" by (rule floor_divide_of_nat_eq)
  finally show ?thesis by simp
qed

lemma scaledFloor_bounds:
  assumes "CW < 2 ^ 32"
  shows "scaledFloor CW True \<le> 7 * CW div 20 \<and> 7 * CW div 20 \<le> scaledFloor CW True + 1"
proof -
  define P where "P = CW * 6305039478318694"
  define R where "R = roundNE53 P"
  define q where "q = 7 * CW div 20"
  define w where "w = R div 2 ^ 54"
  have near: "R * 2 ^ 53 \<le> P * (2 ^ 53 + 1)" "P * 2 ^ 53 \<le> R * 2 ^ 53 + P"
    using roundNE53_near[of P] by (simp_all add: R_def)
  have q1: "20 * q \<le> 7 * CW" "7 * CW < 20 * q + 20" unfolding q_def by presburger+
  have w1: "w * 2 ^ 54 \<le> R" "R < w * 2 ^ 54 + 2 ^ 54"
  proof -
    have "R = w * 2 ^ 54 + R mod 2 ^ 54" unfolding w_def by simp
    moreover have "R mod 2 ^ 54 < 2 ^ 54" by simp
    ultimately show "w * 2 ^ 54 \<le> R" "R < w * 2 ^ 54 + 2 ^ 54" by linarith+
  qed
  have CWb: "CW < 4294967296" using assms by simp
  have "w \<le> q"
  proof (rule ccontr)
    assume "\<not> w \<le> q"
    then have "q + 1 \<le> w" by simp
    then have "(q + 1) * 2 ^ 54 \<le> w * 2 ^ 54" by (rule mult_le_mono1)
    with w1(1) have "(q + 1) * 2 ^ 54 \<le> R" by linarith
    with near(1) q1(2) CWb show False unfolding P_def by simp
  qed
  moreover have "q \<le> w + 1"
  proof (rule ccontr)
    assume "\<not> q \<le> w + 1"
    then have "w + 2 \<le> q" by simp
    then have "(w + 2) * 2 ^ 54 \<le> q * 2 ^ 54" by (rule mult_le_mono1)
    with w1(2) have "R + 2 ^ 54 \<le> q * 2 ^ 54" by (simp add: algebra_simps)
    with near(2) q1(1) CWb show False unfolding P_def by simp
  qed
  ultimately show ?thesis by (simp add: scaledFloor_def w_def R_def P_def q_def)
qed

lemma workDim_bounds:
  assumes "CW < 2 ^ 32"
  shows "workDim CW True \<le> max 1 (nat \<lfloor>0.35 * real CW\<rfloor>)
       \<and> max 1 (nat \<lfloor>0.35 * real CW\<rfloor>) \<le> workDim CW True + 1"
  using scaledFloor_bounds[OF assms] unfolding workDim_def floor_035 by auto

lemma renderFrame_overlays:
  assumes "renderFrame e p scrub draw rnd full = Some f"
  shows "overlays f = presetOverlays (preset p) (canvasW f) (canvasH f) @
                      burnOverlays p (canvasW f) (canvasH f)"
  using assms
  by (auto simp: renderFrame_def Let_def split: option.splits if_splits)

text \<open>
  C7, as the code has it. Every render executed while scrubbing allocates a working
  buffer of \<open>max(1, floor(CW \<otimes> 0.35))\<close> by \<open>max(1, floor(CH \<otimes> 0.35))\<close>, where \<open>\<otimes>\<close> is
  the binary64 product with the binary64 number nearest to 0.35. For output
  dimensions below \<open>2^32\<close> this is never larger than \<open>max(1, floor(0.35 * dimension))\<close>
  and at most one pixel smaller. When \<open>burn > 0\<close> the overlays end with the vignette
  and the warm edge burn, drawn at the full output size.
\<close>

theorem preview_working_buffer_bound:
  assumes "renderFrame e p True draw rnd full = Some f"
    and "canvasW f < 2 ^ 32" and "canvasH f < 2 ^ 32"
  shows "workW f = max 1 (roundNE53 (canvasW f * 6305039478318694) div 2 ^ 54)
       \<and> workH f = max 1 (roundNE53 (canvasH f * 6305039478318694) div 2 ^ 54)
       \<and> workW f \<le> max 1 (nat \<lfloor>0.35 * real (canvasW f)\<rfloor>)
       \<and> workH f \<le> max 1 (nat \<lfloor>0.35 * real (canvasH f)\<rfloor>)
       \<and> max 1 (nat \<lfloor>0.35 * real (canvasW f)\<rfloor>) \<le> workW f + 1
       \<and> max 1 (nat \<lfloor>0.35 * real (canvasH f)\<rfloor>) \<le> workH f + 1
       \<and> (burn p > 0 \<longrightarrow>
            overlays f = presetOverlays (preset p) (canvasW f) (canvasH f) @
              [Vignette (canvasW f) (canvasH f) (0.28 * (burn p / 100)),
               WarmEdgeBurn (canvasW f) (canvasH f) (0.5 * (burn p / 100))])"
proof -
  have sz: "workW f = workDim (canvasW f) True" "workH f = workDim (canvasH f) True"
    using renderFrame_preview_size[OF assms(1)] by simp_all
  have ov: "burn p > 0 \<longrightarrow>
            overlays f = presetOverlays (preset p) (canvasW f) (canvasH f) @
              [Vignette (canvasW f) (canvasH f) (0.28 * (burn p / 100)),
               WarmEdgeBurn (canvasW f) (canvasH f) (0.5 * (burn p / 100))]"
    using renderFrame_overlays[OF assms(1)] by (simp add: burnOverlays_def)
  have ex: "workDim (canvasW f) True = max 1 (roundNE53 (canvasW f * 6305039478318694) div 2 ^ 54)"
    "workDim (canvasH f) True = max 1 (roundNE53 (canvasH f * 6305039478318694) div 2 ^ 54)"
    by (simp_all add: workDim_def scaledFloor_def)
  from sz ex workDim_bounds[OF assms(2)] workDim_bounds[OF assms(3)] ov
  show ?thesis by simp
qed

lemma workDim_640: "workDim 640 True = 224"
proof -
  have "floorlog 2 (640 * 6305039478318694) = 62" by (rule floorlog2_eqI) simp_all
  then show ?thesis by (simp add: workDim_def scaledFloor_def roundNE53_def Let_def)
qed

lemma workDim_800: "workDim 800 True = 280"
proof -
  have "floorlog 2 (800 * 6305039478318694) = 63" by (rule floorlog2_eqI) simp_all
  then show ?thesis by (simp add: workDim_def scaledFloor_def roundNE53_def Let_def)
qed

lemma demo_preview_frame:
  "\<exists>f. renderFrame demoEnv defaults True (flatDraw 128) (constRandom (1 / 2)) False = Some f
       \<and> canvasW f = 640 \<and> canvasH f = 800 \<and> workW f = 224 \<and> workH f = 280
       \<and> overlays f = [Vignette 640 800 (0.28 * (35 / 100)), WarmEdgeBurn 640 800 (0.5 * (35 / 100))]"
  by (simp add: renderFrame_def demoEnv_def defaults_def Let_def workDim_640 workDim_800
        presetOverlays_def burnOverlays_def)

theorem preview_working_buffer_bound_witness:
  "map_option workW (renderFrame demoEnv defaults True (flatDraw 128) (constRandom (1 / 2)) False)
     = Some 224
   \<and> 0 < burn defaults
   \<and> max 1 (nat \<lfloor>0.35 * real (640::nat)\<rfloor>) = 224
   \<and> map_option overlays (renderFrame demoEnv defaults True (flatDraw 128) (constRandom (1 / 2)) False)
     = Some [Vignette 640 800 (0.28 * (35 / 100)), WarmEdgeBurn 640 800 (0.5 * (35 / 100))]"
proof -
  obtain f where f: "renderFrame demoEnv defaults True (flatDraw 128) (constRandom (1 / 2)) False = Some f"
    "canvasW f = 640" "canvasH f = 800" "workW f = 224" "workH f = 280"
    "overlays f = [Vignette 640 800 (0.28 * (35 / 100)), WarmEdgeBurn 640 800 (0.5 * (35 / 100))]"
    using demo_preview_frame by blast
  have "canvasW f < 2 ^ 32" "canvasH f < 2 ^ 32" using f by simp_all
  from preview_working_buffer_bound[OF f(1) this] f
  show ?thesis by (simp add: floor_035 defaults_def)
qed

text \<open>
  C7 as the claim states it fails: for a 1400 by 1050 output the working buffer is
  489 wide, and \<open>max(1, floor(0.35 * 1400)) = 490\<close>.
\<close>

theorem preview_width_not_exact:
  "map_option workW (renderFrame wideEnv defaults True (flatDraw 128) (constRandom (1 / 2)) False)
     = Some 489
   \<and> map_option canvasW (renderFrame wideEnv defaults True (flatDraw 128) (constRandom (1 / 2)) False)
     = Some 1400
   \<and> max 1 (nat \<lfloor>0.35 * real (1400::nat)\<rfloor>) = 490"
proof -
  have "floorlog 2 (1400 * 6305039478318694) = 63" by (rule floorlog2_eqI) simp_all
  then have w: "workDim 1400 True = 489"
    by (simp add: workDim_def scaledFloor_def roundNE53_def Let_def)
  show ?thesis using w
    by (simp add: renderFrame_def wideEnv_def Let_def floor_035)
qed

subsection \<open>Bounds on the channel values before the clamp\<close>

lemma toInt32_small: "\<bar>v\<bar> < 2 ^ 31 \<Longrightarrow> toInt32 v = js_trunc v"
proof -
  assume a: "\<bar>v\<bar> < 2 ^ 31"
  have "- (2 ^ 31) \<le> js_trunc v \<and> js_trunc v < 2 ^ 31"
    using a by (auto simp: js_trunc_def floor_less_iff le_floor_iff ceiling_less_iff le_ceiling_iff abs_if split: if_splits)
  then show ?thesis by (simp add: toInt32_def)
qed

lemma cfg_facts:
  assumes "inRange p"
  shows "0 < exposureGain (mkCfg p h)" "exposureGain (mkCfg p h) \<le> 4"
    "1 \<le> extraGain (mkCfg p h)" "extraGain (mkCfg p h) \<le> 2"
    "0 \<le> burnAmt (mkCfg p h)" "burnAmt (mkCfg p h) \<le> 1"
    "hlPush (mkCfg p h) = 1.15 * burnAmt (mkCfg p h)"
    "warmBoost (mkCfg p h) = 0.45 * burnAmt (mkCfg p h)"
    "blueCut (mkCfg p h) = 0.28 * burnAmt (mkCfg p h)"
    "0 \<le> noiseAmp (mkCfg p h)" "noiseAmp (mkCfg p h) \<le> 255"
    "doPosterize (mkCfg p h) \<Longrightarrow> 0 < step (mkCfg p h) \<and> step (mkCfg p h) \<le> 255"
proof -
  have "2 powr exposureEV p \<le> 2 powr 2" using assms by (intro powr_mono) (simp_all add: inRange_def)
  then show "exposureGain (mkCfg p h) \<le> 4" by (simp add: mkCfg_def Let_def)
  show "0 < exposureGain (mkCfg p h)" by (simp add: mkCfg_def Let_def)
  show "1 \<le> extraGain (mkCfg p h)" "extraGain (mkCfg p h) \<le> 2"
    using assms by (simp_all add: mkCfg_def Let_def inRange_def)
  show "0 \<le> burnAmt (mkCfg p h)" "burnAmt (mkCfg p h) \<le> 1"
    "hlPush (mkCfg p h) = 1.15 * burnAmt (mkCfg p h)"
    "warmBoost (mkCfg p h) = 0.45 * burnAmt (mkCfg p h)"
    "blueCut (mkCfg p h) = 0.28 * burnAmt (mkCfg p h)"
    by (simp_all add: mkCfg_def Let_def)
  show "0 \<le> noiseAmp (mkCfg p h)" "noiseAmp (mkCfg p h) \<le> 255"
    using assms by (simp_all add: mkCfg_def Let_def inRange_def)
  show "0 < step (mkCfg p h) \<and> step (mkCfg p h) \<le> 255" if dp: "doPosterize (mkCfg p h)"
  proof -
    from dp have g1: "posterize p > 1" by (simp add: mkCfg_def Let_def)
    from assms have "posterize p = of_int \<lfloor>posterize p\<rfloor>" by (simp add: inRange_def)
    then obtain n :: int where n: "posterize p = of_int n" ..
    with g1 have "n > 1" by simp
    then have "2 \<le> n" by simp
    then have "(2::real) \<le> of_int n" by (metis of_int_le_iff of_int_numeral)
    then have "posterize p - 1 \<ge> 1" using n by simp
    then have "255 / (posterize p - 1) \<le> 255 \<and> 0 < 255 / (posterize p - 1)"
      by (simp add: field_simps)
    then show ?thesis using dp g1 by (simp add: mkCfg_def Let_def)
  qed
qed

lemma gain_bound1:
  assumes "0 \<le> (x::real)" "x \<le> 255" "0 < eg" "eg \<le> 4" "1 \<le> xg" "xg \<le> 2"
  shows "0 \<le> x * eg * xg \<and> x * eg * xg \<le> 2040"
proof -
  have "x * eg \<le> 255 * 4" using assms by (intro mult_mono) simp_all
  moreover have "0 \<le> x * eg" using assms by simp
  ultimately have "x * eg * xg \<le> (255 * 4) * 2" using assms by (intro mult_mono) simp_all
  moreover have "0 \<le> x * eg * xg" using assms by simp
  ultimately show ?thesis by simp
qed

lemma gainStage_inBox:
  assumes "inRange p" "inBox 0 255 x"
  shows "inBox 0 2040 (gainStage (mkCfg p h) x)"
proof -
  obtain r g b where x: "x = (r, g, b)" by (cases x) auto
  note c = cfg_facts(1-4)[OF assms(1), of h]
  show ?thesis using assms(2) gain_bound1[OF _ _ c] 
    by (simp add: x gainStage_def)
qed

lemma burn_bound1:
  assumes "0 \<le> (x::real)" "x \<le> 2040" "0 \<le> k" "k \<le> 1" "0 \<le> a" "a \<le> 23/20" "0 \<le> w" "w \<le> 70" 
  shows "0 \<le> x * (1 + a * k) + w * k \<and> x * (1 + a * k) + w * k \<le> 4456"
    and "- 70 \<le> x * (1 + a * k) - w * k \<and> x * (1 + a * k) - w * k \<le> 4456"
proof -
  have ak: "0 \<le> a * k" "a * k \<le> 23/20 * 1" using assms by (simp, intro mult_mono) simp_all
  have "x * (1 + a * k) \<le> 2040 * (1 + 23/20)" using assms ak by (intro mult_mono) simp_all
  then have u: "x * (1 + a * k) \<le> 4386" by simp
  have l: "0 \<le> x * (1 + a * k)" using assms ak by simp
  have wk: "0 \<le> w * k" "w * k \<le> 70 * 1" using assms by (simp, intro mult_mono) simp_all
  show "0 \<le> x * (1 + a * k) + w * k \<and> x * (1 + a * k) + w * k \<le> 4456" using u l wk by simp
  show "- 70 \<le> x * (1 + a * k) - w * k \<and> x * (1 + a * k) - w * k \<le> 4456" using u l wk by simp
qed

lemma burnStage_inBox:
  assumes "inRange p" "inBox 0 2040 x"
  shows "inBox (- 70) 4456 (burnStage (mkCfg p h) x)"
proof -
  obtain r g b where x: "x = (r, g, b)" by (cases x) auto
  let ?c = "mkCfg p h"
  note c = cfg_facts[OF assms(1), of h]
  show ?thesis
  proof (cases "burnAmt ?c > 0")
    case False
    then show ?thesis using assms(2) by (simp add: x burnStage_def)
  next
    case True
    define t where "t = min 1 (max 0 ((0.2126 * r + 0.7152 * g + 0.0722 * b - 110) / 145))"
    define k where "k = burnAmt ?c * t"
    have t: "0 \<le> t" "t \<le> 1" by (simp_all add: t_def)
    have k: "0 \<le> k" "k \<le> 1" unfolding k_def using t c(5,6) 
      by (simp, metis mult_le_one)
    have rr: "0 \<le> r" "r \<le> 2040" "0 \<le> g" "g \<le> 2040" "0 \<le> b" "b \<le> 2040"
      using assms(2) by (simp_all add: x)
    have R: "r * (1 + hlPush ?c * t) + 255 * warmBoost ?c * t * 0.6 = r * (1 + (23/20) * k) + (1377/20) * k"
      by (simp add: c(7,8) k_def algebra_simps)
    have G: "g * (1 + (hlPush ?c * 0.65) * t) + 255 * warmBoost ?c * t * 0.3 = g * (1 + (299/400) * k) + (1377/40) * k"
      by (simp add: c(7,8) k_def algebra_simps)
    have B: "b * (1 + (hlPush ?c * 0.35) * t) - 255 * blueCut ?c * t * 0.2 = b * (1 + (161/400) * k) - (357/25) * k"
      by (simp add: c(7,9) k_def algebra_simps)
    have "burnStage ?c x = (r * (1 + hlPush ?c * t) + 255 * warmBoost ?c * t * 0.6,
         g * (1 + (hlPush ?c * 0.65) * t) + 255 * warmBoost ?c * t * 0.3,
         b * (1 + (hlPush ?c * 0.35) * t) - 255 * blueCut ?c * t * 0.2)"
      unfolding x burnStage_def Let_def t_def using True by simp
    then have "burnStage ?c x = (r * (1 + (23/20) * k) + (1377/20) * k,
         g * (1 + (299/400) * k) + (1377/40) * k, b * (1 + (161/400) * k) - (357/25) * k)"
      by (simp only: R G B)
    moreover note burn_bound1(1)[OF rr(1,2) k, of "23/20" "1377/20"]
      burn_bound1(1)[OF rr(3,4) k, of "299/400" "1377/40"]
      burn_bound1(2)[OF rr(5,6) k, of "161/400" "357/25"]
    ultimately show ?thesis by (simp add:)
  qed
qed

lemma mathRound_near:
  assumes "0 < s"
  shows "v - s / 2 \<le> of_int (mathRound (v / s)) * s \<and> of_int (mathRound (v / s)) * s \<le> v + s / 2"
proof -
  define m :: real where "m = of_int (mathRound (v / s))"
  have a: "m \<le> v / s + 1 / 2" by (simp add: m_def mathRound_def)
  have b: "v / s - 1 / 2 \<le> m" unfolding m_def mathRound_def by linarith
  have e1: "(v / s + 1 / 2) * s = v + s / 2" using assms by (simp add: field_simps)
  have e2: "(v / s - 1 / 2) * s = v - s / 2" using assms by (simp add: field_simps)
  from a have "m * s \<le> (v / s + 1 / 2) * s"
    using assms by (intro mult_right_mono) simp_all
  moreover from b have "(v / s - 1 / 2) * s \<le> m * s"
    using assms by (intro mult_right_mono) simp_all
  ultimately show ?thesis unfolding e1 e2 m_def by simp
qed

lemma posterizeStage_inBox:
  assumes "inRange p" "inBox (- 70) 4456 x"
  shows "inBox (- 200) 4600 (posterizeStage (mkCfg p h) x)"
proof -
  obtain r g b where x: "x = (r, g, b)" by (cases x) auto
  let ?c = "mkCfg p h"
  show ?thesis
  proof (cases "doPosterize ?c")
    case False
    then show ?thesis using assms(2) by (simp add: x posterizeStage_def)
  next
    case True
    from cfg_facts(12)[OF assms(1) True] have s: "0 < step ?c" "step ?c \<le> 255" by simp_all
    from mathRound_near[OF s(1), of r] mathRound_near[OF s(1), of g] mathRound_near[OF s(1), of b]
      s assms(2) True
    show ?thesis by (simp add: x posterizeStage_def)
  qed
qed

lemma noiseStage_inBox:
  assumes "inRange p" "inBox (- 200) 4600 x" "0 \<le> u" "u < 1"
  shows "inBox (- 500) 5000 (noiseStage (mkCfg p h) u x)"
proof -
  obtain r g b where x: "x = (r, g, b)" by (cases x) auto
  let ?c = "mkCfg p h"
  define n where "n = (u - 0.5) * 2 * noiseAmp ?c"
  have "\<bar>(u - 0.5) * 2\<bar> \<le> 1" using assms(3,4) by (simp add: abs_if)
  moreover have "\<bar>noiseAmp ?c\<bar> \<le> 255" using cfg_facts(10,11)[OF assms(1), of h] by simp
  ultimately have "\<bar>(u - 0.5) * 2\<bar> * \<bar>noiseAmp ?c\<bar> \<le> 1 * 255"
    by (intro mult_mono) simp_all
  then have n: "\<bar>n\<bar> \<le> 255" by (simp add: n_def abs_mult)
  have "noiseStage ?c u x = (if doNoise ?c then (r + n, g + n, b + n) else (r, g, b))"
    unfolding x noiseStage_def Let_def n_def by simp
  then show ?thesis using assms(2) n by (auto simp: x)
qed

lemma preClamp_inBox:
  assumes "inRange p" "inBox 0 255 x" "0 \<le> u" "u < 1"
  shows "inBox (- 500) 5000 (preClamp (mkCfg p h) u x)"
  unfolding preClamp_def
  by (intro noiseStage_inBox posterizeStage_inBox burnStage_inBox gainStage_inBox assms)

lemma inBox_chan: "inBox lo hi x \<Longrightarrow> lo \<le> chan c x \<and> chan c x \<le> hi"
  by (cases x) (simp add: chan_def)

subsection \<open>Every written channel is clamped\<close>

lemma bytes_pixelAt:
  assumes "bytes d" "j < length d" "j mod 4 \<noteq> 3" "4 dvd length d"
  shows "inBox 0 255 (pixelAt d (j div 4))"
proof -
  have "4 * (j div 4) + 3 < length d" using assms(2,4) by (elim dvdE) presburger
  then have "d ! (4 * (j div 4)) \<in> set d" "d ! (4 * (j div 4) + 1) \<in> set d" "d ! (4 * (j div 4) + 2) \<in> set d"
    by simp_all
  with assms(1) show ?thesis by (simp add: pixelAt_def bytes_def)
qed

lemma clamp_small: "\<bar>v\<bar> < 2 ^ 31 \<Longrightarrow> clamp v = max 0 (min 255 (js_trunc v))"
  by (simp add: clamp_def toInt32_small)

text \<open>
  C3. Every byte the pixel loop of the mobile variant writes (index \<open>j\<close> with
  \<open>j mod 4 \<noteq> 3\<close>) is \<^verbatim>\<open>clamp\<close> of the channel value computed for that pixel, hence
  an integer between 0 and 255, for all parameters. For parameters in their documented
  ranges, image bytes and a random draw in \<open>[0, 1)\<close> (what \<^verbatim>\<open>Math.random()\<close>
  returns) the value before the clamp stays far
  inside the 32-bit range, so \<^verbatim>\<open>v | 0\<close> is plain truncation toward zero and the byte
  is that truncation clamped to 0..255.
\<close>

theorem pixel_pass_output_clamped:
  assumes "j < length d" and "j mod 4 \<noteq> 3"
  shows "0 \<le> pixelPass p allowHeavy rnd d ! j \<and> pixelPass p allowHeavy rnd d ! j \<le> 255
       \<and> pixelPass p allowHeavy rnd d ! j =
           clamp (chan (j mod 4)
             (preClamp (mkCfg p allowHeavy) (rnd (j div 4)) (pixelAt d (j div 4))))
       \<and> (inRange p \<and> bytes d \<and> 4 dvd length d \<and> 0 \<le> rnd (j div 4) \<and> rnd (j div 4) < 1 \<longrightarrow>
            pixelPass p allowHeavy rnd d ! j =
              max 0 (min 255 (js_trunc (chan (j mod 4)
                (preClamp (mkCfg p allowHeavy) (rnd (j div 4)) (pixelAt d (j div 4)))))))"
proof -
  let ?v = "chan (j mod 4) (preClamp (mkCfg p allowHeavy) (rnd (j div 4)) (pixelAt d (j div 4)))"
  have e: "pixelPass p allowHeavy rnd d ! j = clamp ?v"
    using assms by (simp add: pixelPass_nth)
  have t: "clamp ?v = max 0 (min 255 (js_trunc ?v))"
    if "inRange p" "bytes d" "4 dvd length d" "0 \<le> rnd (j div 4)" "rnd (j div 4) < 1"
  proof -
    have "inBox 0 255 (pixelAt d (j div 4))" using that assms by (simp add: bytes_pixelAt)
    moreover note that(4,5)
    ultimately have "inBox (- 500) 5000 (preClamp (mkCfg p allowHeavy) (rnd (j div 4)) (pixelAt d (j div 4)))"
      using that(1) by (intro preClamp_inBox)
    then have "- 500 \<le> ?v \<and> ?v \<le> 5000" by (rule inBox_chan)
    then have "\<bar>?v\<bar> < 2 ^ 31" by (simp add: abs_less_iff)
    then show ?thesis by (rule clamp_small)
  qed
  show ?thesis using e t clamp_range[of ?v] by simp
qed

theorem pixel_pass_output_clamped_witness:
  "(0::nat) < length [10, 20, 30, 77 :: int] \<and> (0::nat) mod 4 \<noteq> 3
   \<and> inRange defaults \<and> bytes [10, 20, 30, 77] \<and> 4 dvd length [10, 20, 30, 77 :: int]
   \<and> 0 \<le> constRandom (3 / 4) (0 div 4) \<and> constRandom (3 / 4) (0 div 4) < 1
   \<and> pixelPass defaults True (constRandom (3 / 4)) [10, 20, 30, 77] ! 0 = 20
   \<and> max 0 (min 255 (js_trunc (chan (0 mod 4)
         (preClamp (mkCfg defaults True) (constRandom (3 / 4) (0 div 4))
            (pixelAt [10, 20, 30, 77] (0 div 4)))))) = 20
   \<and> (0::int) \<le> 20 \<and> (20::int) \<le> 255"
proof -
  have "length [10, 20, 30, 77 :: int] = 4" by simp
  then have dv: "4 dvd length [10, 20, 30, 77 :: int]" by (simp only: dvd_refl)
  show ?thesis
    using pixel_pass_output_clamped [of 0 "[10, 20, 30, 77]" defaults True "constRandom (3 / 4)"] dv
    by (simp add: preClamp_def noiseStage_def posterizeStage_def burnStage_def gainStage_def
          mkCfg_def defaults_def constRandom_def pixelAt_def chan_def Let_def clamp_def
          toInt32_def js_trunc_def inRange_def bytes_def)
qed

subsection \<open>The burn\<close>







subsection \<open>Determinism\<close>

lemma pixelBody_no_noise:
  "\<not> doNoise c \<Longrightarrow> pixelBody c rnd1 = pixelBody c rnd2"
  by (intro ext) (simp add: pixelBody_def preClamp_def noiseStage_def split: prod.splits)

text \<open>
  C8. With noise at 0 and scrubbing off, the frame \<^verbatim>\<open>renderFrame\<close> produces does not
  depend on the random source nor on its argument: two invocations with the same
  parameters, environment and source image give the same frame, byte for byte. The
  frame is a function of these inputs alone; no earlier output is among them.
\<close>

theorem render_deterministic_without_noise:
  assumes "noise p = 0"
  shows "renderFrame e p False draw rnd1 full1 = renderFrame e p False draw rnd2 full2"
proof -
  have "\<not> doNoise (mkCfg p True)" using assms by (simp add: mkCfg_def Let_def)
  then have "pixelPass p True rnd1 = pixelPass p True rnd2"
    by (intro ext) (simp add: pixelPass_def pixelBody_no_noise[of _ rnd1 rnd2])
  then show ?thesis by (auto simp: renderFrame_def Let_def split: option.splits)
qed

theorem render_deterministic_without_noise_witness:
  "noise (defaults\<lparr>noise := 0\<rparr>) = 0
   \<and> renderFrame demoEnv (defaults\<lparr>noise := 0\<rparr>) False (flatDraw 128) (constRandom (1 / 4)) False
     = renderFrame demoEnv (defaults\<lparr>noise := 0\<rparr>) False (flatDraw 128) (constRandom (3 / 4)) True
   \<and> renderFrame demoEnv (defaults\<lparr>noise := 0\<rparr>) False (flatDraw 128) (constRandom (1 / 4)) False \<noteq> None"
  using render_deterministic_without_noise
    [of "defaults\<lparr>noise := 0\<rparr>" demoEnv "flatDraw 128" "constRandom (1 / 4)" False "constRandom (3 / 4)" True]
  by (simp add: defaults_def renderFrame_def demoEnv_def Let_def)

subsection \<open>Export of a zero-area surface\<close>

lemma handleDownload_zero_area:
  "w = 0 \<or> h = 0 \<Longrightarrow>
     handleDownload (Some (w, h)) = [Alert ''Nothing to download yet.'']
   \<and> handleDownload_app (Some (w, h)) = [Alert ''Nothing to download yet.'']"
  by (simp add: handleDownload_def handleDownload_app_def)


subsection \<open>The brightness cap\<close>




subsection \<open>Posterize with two levels\<close>

lemma js_trunc_of_int [simp]: "js_trunc (of_int m) = m"
  by (simp add: js_trunc_def)

lemma clamp_multiple_255:
  assumes "0 \<le> m" "m \<le> 100"
  shows "clamp (of_int m * 255) \<in> {0, 255}"
proof -
  have "of_int m * (255::real) = of_int (m * 255)" by simp
  then have "toInt32 (of_int m * 255) = (m * 255 + 2 ^ 31) mod 2 ^ 32 - 2 ^ 31"
    unfolding toInt32_def by (simp only: js_trunc_of_int)
  also have "\<dots> = m * 255" using assms by simp
  finally show ?thesis using assms by (cases "m = 0") (auto simp: clamp_def)
qed

lemma mathRound_255_range:
  assumes "- 70 \<le> v" "v \<le> 4456"
  shows "0 \<le> mathRound (v / 255) \<and> mathRound (v / 255) \<le> 100"
proof -
  have "0 \<le> v / 255 + 1 / 2" using assms by simp
  moreover have "v / 255 + 1 / 2 < 101" using assms by simp
  ultimately show ?thesis unfolding mathRound_def by (simp add: floor_le_iff le_floor_iff floor_less_iff)
qed

lemma toUint8Clamp_multiple_255: "toUint8Clamp (of_int m * 255) \<in> {0, 255}"
proof (cases "m \<le> 0")
  case True
  then have "of_int m * (255::real) \<le> 0" by (simp add: mult_le_0_iff)
  then show ?thesis by (simp add: toUint8Clamp_def)
next
  case False
  then have "1 \<le> m" by simp
  then have "(1::real) \<le> of_int m" by simp
  then have "(255::real) \<le> of_int m * 255" by simp
  then show ?thesis by (simp add: toUint8Clamp_def)
qed

lemma posterize2_pixel:
  assumes "inRange p" "posterize p = 2" "noise p = 0" "inBox 0 255 x"
  shows "clamp (chan c (preClamp (mkCfg p True) u x)) \<in> {0, 255}"
proof -
  let ?c = "mkCfg p True"
  have dn: "\<not> doNoise ?c" and dp: "doPosterize ?c" and st: "step ?c = 255"
    using assms(2,3) by (simp_all add: mkCfg_def Let_def)
  obtain r g b where y: "burnStage ?c (gainStage ?c x) = (r, g, b)"
    by (cases "burnStage ?c (gainStage ?c x)") auto
  have "inBox (- 70) 4456 (burnStage ?c (gainStage ?c x))"
    using assms(1,4) by (intro burnStage_inBox gainStage_inBox)
  then have bb: "- 70 \<le> r" "r \<le> 4456" "- 70 \<le> g" "g \<le> 4456" "- 70 \<le> b" "b \<le> 4456"
    by (simp_all add: y)
  have pc: "preClamp ?c u x = (of_int (mathRound (r / 255)) * 255,
      of_int (mathRound (g / 255)) * 255, of_int (mathRound (b / 255)) * 255)"
    using dn dp st by (simp add: preClamp_def noiseStage_def posterizeStage_def y)
  have "clamp (of_int (mathRound (r / 255)) * 255) \<in> {0, 255}"
       "clamp (of_int (mathRound (g / 255)) * 255) \<in> {0, 255}"
       "clamp (of_int (mathRound (b / 255)) * 255) \<in> {0, 255}"
    using mathRound_255_range[OF bb(1,2)] mathRound_255_range[OF bb(3,4)]
      mathRound_255_range[OF bb(5,6)]
    by (intro clamp_multiple_255; simp)+
  then show ?thesis by (simp add: pc chan_def)
qed

lemma posterize2_pass:
  assumes "inRange p" "posterize p = 2" "noise p = 0" "bytes d" "4 dvd length d"
    "j < length d" "j mod 4 \<noteq> 3"
  shows "pixelPass p True rnd d ! j \<in> {0, 255}"
proof -
  have "inBox 0 255 (pixelAt d (j div 4))"
    using assms(4,6,7,5) by (rule bytes_pixelAt)
  from posterize2_pixel[OF assms(1,2,3) this] assms(6,7)
  show ?thesis by (simp add: pixelPass_nth)
qed

lemma chan_posterizeBody_v1:
  "chan c (posterizeBody_v1 255 k x) = of_int (mathRound (chan c x / 255)) * 255"
  by (cases x) (simp add: posterizeBody_v1_def roundStep_def chan_def)

lemma posterize2_pass_v1:
  assumes "j < length d" "j mod 4 \<noteq> 3"
  shows "rgbLoop (posterizeBody_v1 255) 0 d ! j \<in> {0, 255}"
proof -
  have "rgbLoop (posterizeBody_v1 255) 0 d ! j =
      toUint8Clamp (of_int (mathRound (chan (j mod 4) (pixelAt d (j div 4)) / 255)) * 255)"
    using assms by (simp add: rgbLoop_nth chan_posterizeBody_v1)
  then show ?thesis using toUint8Clamp_multiple_255 by simp
qed

lemma flat1: "flatDraw v flt (Suc 0) (Suc 0) = [v, v, v, 255]"
  by (simp add: flatDraw_def)

lemma px_frame:
  "renderFrame pixelEnv (defaults\<lparr>posterize := 2\<rparr>) False (flatDraw 0) (constRandom (3 / 4)) True
   = Some \<lparr> canvasW = 1, canvasH = 1, workW = 1, workH = 1, filter = (120, 120, 140, 0),
       pixelPassRan = True,
       workData = pixelPass (defaults\<lparr>posterize := 2\<rparr>) True (constRandom (3 / 4)) [0, 0, 0, 255],
       bloom = Some (1, 1, 0.35 * 0.35),
       overlays = [Vignette 1 1 (0.28 * (35 / 100)), WarmEdgeBurn 1 1 (0.5 * (35 / 100))] \<rparr>"
  by (simp add: renderFrame_def pixelEnv_def defaults_def Let_def workDim_def scaledFloor_def flat1
      presetOverlays_def burnOverlays_def mkCfg_def toInt32_def js_trunc_def)

lemma px_pass: 
  "pixelPass (defaults\<lparr>posterize := 2\<rparr>) True (constRandom (3 / 4)) [0, 0, 0, 255] = [10, 10, 10, 255]"
  by (simp add: pixelPass_def rgbLoop.simps pixelBody_def preClamp_def noiseStage_def posterizeStage_def
      burnStage_def gainStage_def mkCfg_def defaults_def constRandom_def Let_def clamp_def
      toInt32_def js_trunc_def mathRound_def toUint8Clamp_def)

lemma inRange_p0: "inRange (defaults\<lparr>noise := 0, posterize := 2\<rparr>)"
  by (simp add: inRange_def defaults_def)

lemma inRange_p1: "inRange (defaults\<lparr>posterize := 2\<rparr>)"
  by (simp add: inRange_def defaults_def)

lemma pixelPass_length [simp]: "length (pixelPass p h rnd d) = length d"
  by (simp add: pixelPass_def)

text \<open>
  C6, as the code has it. With \<open>posterize = 2\<close>, \<open>noise = 0\<close>, the other parameters in
  their ranges and heavy passes allowed, every channel byte the pixel pass of the
  mobile variant writes is 0 or 255; so is every channel byte after the posterize
  pass of the oldest variant. (The bloom, the blit and the overlays that follow are
  canvas compositing and are not part of the statement.)
\<close>

theorem posterize_two_levels:
  assumes "inRange p" and "posterize p = 2" and "noise p = 0"
    and "renderFrame e p scrub draw rnd full = Some f" and "full \<or> \<not> scrub"
    and "render_v1 e p draw rnd = Some fv"
    and "bytes (draw (filter f) (workW f) (workH f))"
    and "4 dvd length (draw (filter f) (workW f) (workH f))"
    and "j < length (workData f)" and "j mod 4 \<noteq> 3"
    and "k < length (workData_app fv)" and "k mod 4 \<noteq> 3"
  shows "workData f ! j \<in> {0, 255} \<and> workData_app fv ! k \<in> {0, 255}"
proof -
  let ?d = "draw (filter f) (workW f) (workH f)"
  have wd: "workData f = pixelPass p True rnd ?d"
    using assms(4,5) by (auto simp: renderFrame_def Let_def split: option.splits if_splits)
  have len: "length (pixelPass p True rnd ?d) = length ?d" by (simp add: pixelPass_def)
  have a: "workData f ! j \<in> {0, 255}"
    using assms(1,2,3,7,8,9,10) unfolding wd len by (intro posterize2_pass)
  let ?dv = "draw (filter_app fv) (canvasW_app fv) (canvasH_app fv)"
  have wv: "workData_app fv = rgbLoop (posterizeBody_v1 255) 0 ?dv"
    using assms(2,3,6) by (auto simp: render_v1_def Let_def split: option.splits if_splits)
  have "k < length ?dv" using assms(11) by (simp add: wv)
  then have b: "workData_app fv ! k \<in> {0, 255}"
    unfolding wv using assms(12) by (rule posterize2_pass_v1)
  from a b show ?thesis ..
qed

theorem posterize_two_levels_witness:
  "inRange (defaults\<lparr>noise := 0, posterize := 2\<rparr>)
   \<and> posterize (defaults\<lparr>noise := 0, posterize := 2\<rparr>) = 2
   \<and> noise (defaults\<lparr>noise := 0, posterize := 2\<rparr>) = 0
   \<and> bytes (flatDraw 200 (120, 120, 140, 0) 1 1)
   \<and> renderFrame pixelEnv (defaults\<lparr>noise := 0, posterize := 2\<rparr>) False (flatDraw 200)
        (constRandom (1 / 2)) True \<noteq> None
   \<and> workData (the (renderFrame pixelEnv (defaults\<lparr>noise := 0, posterize := 2\<rparr>) False
        (flatDraw 200) (constRandom (1 / 2)) True)) ! 0 \<in> {0, 255}
   \<and> workData_app (the (render_v1 pixelEnv (defaults\<lparr>noise := 0, posterize := 2\<rparr>)
        (flatDraw 200) (constRandom (1 / 2)))) ! 0 \<in> {0, 255}"
proof -
  let ?p = "defaults\<lparr>noise := 0, posterize := 2\<rparr>"
  let ?r = "constRandom (1 / 2)"
  obtain f where f: "renderFrame pixelEnv ?p False (flatDraw 200) ?r True = Some f"
    by (simp add: renderFrame_def pixelEnv_def Let_def)
  obtain fv where fv: "render_v1 pixelEnv ?p (flatDraw 200) ?r = Some fv"
    by (simp add: render_v1_def pixelEnv_def Let_def)
  have d: "draw (filter f) (workW f) (workH f) = [200, 200, 200, 255]" if "draw = flatDraw 200" for draw
    using f that
    by (auto simp: renderFrame_def pixelEnv_def Let_def workDim_def scaledFloor_def flatDraw_def)
  have b1: "bytes (flatDraw 200 (filter f) (workW f) (workH f))"
    by (simp add: d bytes_def)
  have "length (flatDraw 200 (filter f) (workW f) (workH f)) = 4" by (simp add: d)
  then have b2: "4 dvd length (flatDraw 200 (filter f) (workW f) (workH f))" by simp
  note b = b1 b2
  have "length (workData f) = 4"
    using f
    by (auto simp: renderFrame_def pixelEnv_def Let_def workDim_def scaledFloor_def flatDraw_def)
  then have lf: "0 < length (workData f)" by simp
  have "length (workData_app fv) = 4"
    using fv
    by (auto simp: render_v1_def pixelEnv_def Let_def flatDraw_def defaults_def)
  then have lv: "0 < length (workData_app fv)" by simp
  have pn: "posterize ?p = 2" "noise ?p = 0" by (simp_all add: defaults_def)
  have by1: "bytes (flatDraw 200 (120, 120, 140, 0) 1 1)" by (simp add: flatDraw_def bytes_def)
  from posterize_two_levels[OF inRange_p0 pn f _ fv b lf _ lv] inRange_p0 pn by1
  show ?thesis by (simp add: f fv)
qed

text \<open>
  C6 as the claim states it fails: noise is another parameter, it is added after the
  quantization, and with the default \<open>noise = 0.08\<close> a black pixel comes out as 10,
  in the mobile variant and in the oldest one.
\<close>

theorem posterize_with_noise_other_levels:
  "inRange (defaults\<lparr>posterize := 2\<rparr>) \<and> posterize (defaults\<lparr>posterize := 2\<rparr>) = 2
   \<and> map_option workData (renderFrame pixelEnv (defaults\<lparr>posterize := 2\<rparr>) False (flatDraw 0)
        (constRandom (3 / 4)) True) = Some [10, 10, 10, 255]
   \<and> map_option workData_app (render_v1 pixelEnv (defaults\<lparr>posterize := 2\<rparr>) (flatDraw 0)
        (constRandom (3 / 4))) = Some [10, 10, 10, 255]"
proof -
  have v1: "render_v1 pixelEnv (defaults\<lparr>posterize := 2\<rparr>) (flatDraw 0) (constRandom (3 / 4))
     = Some \<lparr> canvasW_app = 1, canvasH_app = 1, filter_app = (120, 120, 140, 0),
         pixelPassRan_app = True, workData_app = [10, 10, 10, 255] \<rparr>"
    by (simp add: render_v1_def pixelEnv_def defaults_def Let_def flat1 rgbLoop.simps
        posterizeBody_v1_def noiseBody_v1_def roundStep_def mathRound_def clamp_v1_def
        constRandom_def toUint8Clamp_def)
  show ?thesis using inRange_p1 by (simp add: px_frame px_pass v1)
qed

subsection \<open>Frame condition of the per-pixel pass\<close>

text \<open>
  C10. The per-pixel pass of the mobile variant and that of the free build keep the
  length of the image data and leave every alpha byte (index \<open>j\<close> with \<open>j mod 4 = 3\<close>)
  as it was, for all parameters, random draws and image data.
\<close>

theorem pixel_pass_keeps_alpha:
  assumes "j < length d" and "j mod 4 = 3"
  shows "length (pixelPass p allowHeavy rnd d) = length d
       \<and> pixelPass p allowHeavy rnd d ! j = d ! j
       \<and> length (rgbLoop (pixelBody_app (mkCfg_app p) rnd) 0 d) = length d
       \<and> rgbLoop (pixelBody_app (mkCfg_app p) rnd) 0 d ! j = d ! j"
  using assms by (simp add: pixelPass_def rgbLoop_nth)

theorem pixel_pass_keeps_alpha_witness:
  "(3::nat) < length [10, 20, 30, 77 :: int] \<and> (3::nat) mod 4 = 3
   \<and> pixelPass defaults True (constRandom (1 / 2)) [10, 20, 30, 77] ! 3 = 77
   \<and> rgbLoop (pixelBody_app (mkCfg_app defaults) (constRandom (1 / 2))) 0 [10, 20, 30, 77] ! 3 = 77"
  using pixel_pass_keeps_alpha [of 3 "[10, 20, 30, 77]" defaults True "constRandom (1 / 2)"]
  by simp

end
